theory Spec2Isabelle
  imports Complex_Main
begin

section \<open>Data model\<close>

text \<open>
  The mind-map page works on JavaScript values. Numbers are modelled as real numbers
  (the arithmetic of the program without rounding, infinities or NaN), strings as lists of
  characters, one \<^typ>\<open>char\<close> per code unit (code units above 255 have no \<^typ>\<open>char\<close>;
  the program treats them like every other unit that is not an ASCII letter or digit), and a
  \<open>Set<string>\<close> as a \<^typ>\<open>string set\<close>.

  \<open>MindMapNode\<close> is the interface of the source with its optional \<open>id\<close>;
  \<open>IdNode\<close> is the type \<open>MindMapNode & { id: string }\<close> that \<open>addIds\<close>
  returns and \<open>calculateLayout\<close> takes.
\<close>

datatype MindMapNode =
  MindMapNode (mm_id: "string option") (mm_topic: string) (mm_children: "MindMapNode list")

datatype IdNode =
  IdNode (node_id: string) (topic: string) (children: "IdNode list")

subsection \<open>Constants\<close>

definition NODE_HEIGHT :: real where "NODE_HEIGHT = 50"
definition HORIZONTAL_SPACING :: real where "HORIZONTAL_SPACING = 60"
definition VERTICAL_SPACING :: real where "VERTICAL_SPACING = 20"
definition NODE_HORIZONTAL_PADDING :: real where "NODE_HORIZONTAL_PADDING = 40"
definition MIN_NODE_WIDTH :: real where "MIN_NODE_WIDTH = 120"
definition CHEVRON_OFFSET :: real where "CHEVRON_OFFSET = 16"
definition MIN_ZOOM_WIDTH :: real where "MIN_ZOOM_WIDTH = 200"
definition MAX_ZOOM_WIDTH :: real where "MAX_ZOOM_WIDTH = 8000"

section \<open>Identifier assignment: \<open>addIds\<close>\<close>

text \<open>
  \<open>node.topic.replace(/[^a-zA-Z0-9]/g, '-')\<close>: every code unit outside the three ranges
  \<open>a-z\<close>, \<open>A-Z\<close>, \<open>0-9\<close> becomes a dash, all others stay.
\<close>

definition isAlnum :: "char \<Rightarrow> bool" where
  "isAlnum c = (let n = (of_char c :: nat) in
     (97 \<le> n \<and> n \<le> 122) \<or> (65 \<le> n \<and> n \<le> 90) \<or> (48 \<le> n \<and> n \<le> 57))"

definition sanitize :: "string \<Rightarrow> string" where
  "sanitize s = map (\<lambda>c. if isAlnum c then c else CHR ''-'') s"

text \<open>
  The template literal \<open>`${id}-${i}`\<close> prints the array index \<open>i\<close> in decimal,
  without leading zeros.
\<close>

definition digitChar :: "nat \<Rightarrow> char" where
  "digitChar k = ''0123456789'' ! k"

fun toString :: "nat \<Rightarrow> string" where
  "toString n =
     (if n < 10 then [digitChar n]
      else toString (n div 10) @ [digitChar (n mod 10)])"

declare toString.simps [simp del]

text \<open>
  \<open>addIds(node, prefix)\<close>: the identifier is \<open>prefix-sanitize(topic)\<close>, and the child at
  index \<open>i\<close> is processed with the prefix \<open>id-i\<close>. The spread \<open>...node\<close> copies the
  topic; the incoming \<open>id\<close>, if any, is overwritten.
\<close>

function addIds :: "MindMapNode \<Rightarrow> string \<Rightarrow> IdNode" where
  "addIds (MindMapNode old_id t cs) prefix =
     (let id = prefix @ ''-'' @ sanitize t
      in IdNode id t
           (map (\<lambda>(i, child). addIds child (id @ ''-'' @ toString i)) (enumerate 0 cs)))"
  by pat_completeness auto
termination
  by (relation "measure (\<lambda>(n, p). size n)")
     (auto simp: in_set_enumerate_eq less_Suc_eq_le intro!: size_list_estimation'[OF _ order_refl])

text \<open>The default argument \<open>prefix = 'root'\<close>.\<close>

definition addIdsRoot :: "MindMapNode \<Rightarrow> IdNode" where
  "addIdsRoot node = addIds node ''root''"

text \<open>All nodes of an identified tree, parents before children, and their identifiers.\<close>

fun allNodes :: "IdNode \<Rightarrow> IdNode list" where
  "allNodes (IdNode i t cs) = IdNode i t cs # concat (map allNodes cs)"

definition allIds :: "IdNode \<Rightarrow> string list" where
  "allIds t = map node_id (allNodes t)"

section \<open>Expansion state: \<open>toggleNode\<close>\<close>

text \<open>
  The updater passed to \<open>setExpandedNodes\<close>: copy the previous set, delete the identifier
  if it is a member, add it otherwise.
\<close>

definition toggleNode :: "string \<Rightarrow> string set \<Rightarrow> string set" where
  "toggleNode nodeId prev =
     (let newSet = prev
      in if nodeId \<in> newSet then newSet - {nodeId} else insert nodeId newSet)"

section \<open>Viewport: zoom and pan handlers\<close>

text \<open>
  The component keeps the view box as the string \<open>"x y w h"\<close> and every handler starts
  with \<open>viewBox.split(' ').map(parseFloat)\<close>; the model keeps the four numbers.
  \<open>svgRef.current\<close> is either absent or an element with a bounding rectangle, so it is a
  \<^typ>\<open>'a option\<close> of that rectangle. Each handler runs on the state left by the
  previous one.
\<close>

record ViewBox =
  vx :: real
  vy :: real
  vw :: real
  vh :: real

record DOMRect =
  rect_left :: real
  rect_top :: real
  rect_width :: real
  rect_height :: real

record MouseEvent =
  clientX :: real
  clientY :: real

record WheelEvent = MouseEvent +
  deltaY :: real

datatype direction = In | Out

record ViewState =
  viewBox :: ViewBox
  isDragging :: bool
  dragStart :: "real \<times> real"
  svgRectRef :: "DOMRect option"

definition handleButtonZoom :: "DOMRect option \<Rightarrow> direction \<Rightarrow> ViewState \<Rightarrow> ViewState" where
  "handleButtonZoom svgRef direction st =
     (case svgRef of
        None \<Rightarrow> st
      | Some svg \<Rightarrow>
         (let vb = viewBox st;
              scaleFactor = 1.25;
              scale = (if direction = Out then scaleFactor else 1 / scaleFactor);
              newW = vw vb * scale;
              newW = (if newW < MIN_ZOOM_WIDTH then MIN_ZOOM_WIDTH else newW);
              newW = (if newW > MAX_ZOOM_WIDTH then MAX_ZOOM_WIDTH else newW);
              newH = vh vb * (newW / vw vb);
              newX = vx vb + (vw vb - newW) / 2;
              newY = vy vb + (vh vb - newH) / 2
          in st\<lparr>viewBox := \<lparr>vx = newX, vy = newY, vw = newW, vh = newH\<rparr>\<rparr>))"

definition handleWheel :: "DOMRect option \<Rightarrow> WheelEvent \<Rightarrow> ViewState \<Rightarrow> ViewState" where
  "handleWheel svgRef e st =
     (case svgRef of
        None \<Rightarrow> st
      | Some svgRect \<Rightarrow>
         (let vb = viewBox st;
              scaleFactor = 1.1;
              scale = (if deltaY e > 0 then scaleFactor else 1 / scaleFactor);
              newW = vw vb * scale;
              newW = (if newW < MIN_ZOOM_WIDTH then MIN_ZOOM_WIDTH else newW);
              newW = (if newW > MAX_ZOOM_WIDTH then MAX_ZOOM_WIDTH else newW);
              newH = vh vb * (newW / vw vb);
              mouseX = clientX e - rect_left svgRect;
              mouseY = clientY e - rect_top svgRect;
              svgX = vx vb + (mouseX / rect_width svgRect) * vw vb;
              svgY = vy vb + (mouseY / rect_height svgRect) * vh vb;
              newX = svgX - (mouseX / rect_width svgRect) * newW;
              newY = svgY - (mouseY / rect_height svgRect) * newH
          in st\<lparr>viewBox := \<lparr>vx = newX, vy = newY, vw = newW, vh = newH\<rparr>\<rparr>))"

definition handleMouseDown :: "DOMRect option \<Rightarrow> MouseEvent \<Rightarrow> ViewState \<Rightarrow> ViewState" where
  "handleMouseDown svgRef e st =
     (let st1 = st\<lparr>isDragging := True, dragStart := (clientX e, clientY e)\<rparr>
      in case svgRef of
           Some svgRect \<Rightarrow> st1\<lparr>svgRectRef := Some svgRect\<rparr>
         | None \<Rightarrow> st1)"

definition handleMouseUp :: "ViewState \<Rightarrow> ViewState" where
  "handleMouseUp st = st\<lparr>isDragging := False, svgRectRef := None\<rparr>"

definition handleMouseMove :: "MouseEvent \<Rightarrow> ViewState \<Rightarrow> ViewState" where
  "handleMouseMove e st =
     (if \<not> isDragging st \<or> svgRectRef st = None then st
      else
        (case svgRectRef st of
           None \<Rightarrow> st
         | Some svgRect \<Rightarrow>
            (let vb = viewBox st;
                 dx = (clientX e - fst (dragStart st)) * (vw vb / rect_width svgRect);
                 dy = (clientY e - snd (dragStart st)) * (vh vb / rect_height svgRect)
             in st\<lparr>viewBox := \<lparr>vx = vx vb - dx, vy = vy vb - dy, vw = vw vb, vh = vh vb\<rparr>,
                    dragStart := (clientX e, clientY e)\<rparr>)))"

text \<open>
  The pixel-to-scene conversion that \<open>handleWheel\<close> applies to the mouse position
  (its \<open>svgX\<close> and \<open>svgY\<close>), as a function of the view box.
\<close>

definition toScene :: "ViewBox \<Rightarrow> DOMRect \<Rightarrow> real \<times> real \<Rightarrow> real \<times> real" where
  "toScene vb svgRect p =
     (vx vb + (fst p / rect_width svgRect) * vw vb,
      vy vb + (snd p / rect_height svgRect) * vh vb)"

text \<open>
  A zoom operation is a click on one of the two buttons or a wheel event; wheel events with
  \<open>deltaY > 0\<close> zoom out, all others zoom in.
\<close>

datatype ZoomOp = ButtonZoom direction | WheelZoom WheelEvent

fun applyZoom :: "DOMRect option \<Rightarrow> ZoomOp \<Rightarrow> ViewState \<Rightarrow> ViewState" where
  "applyZoom svgRef (ButtonZoom dir) st = handleButtonZoom svgRef dir st"
| "applyZoom svgRef (WheelZoom e) st = handleWheel svgRef e st"

fun isZoomIn :: "ZoomOp \<Rightarrow> bool" where
  "isZoomIn (ButtonZoom dir) = (dir = In)"
| "isZoomIn (WheelZoom e) = (\<not> deltaY e > 0)"

fun isZoomOut :: "ZoomOp \<Rightarrow> bool" where
  "isZoomOut (ButtonZoom dir) = (dir = Out)"
| "isZoomOut (WheelZoom e) = (deltaY e > 0)"

text \<open>A view state and a surface rectangle for the examples.\<close>

definition exampleState :: ViewState where
  "exampleState =
     \<lparr>viewBox = \<lparr>vx = -500, vy = -400, vw = 1000, vh = 800\<rparr>, isDragging = False,
      dragStart = (0, 0), svgRectRef = None\<rparr>"

definition exampleRect :: DOMRect where
  "exampleRect = \<lparr>rect_left = 0, rect_top = 64, rect_width = 1000, rect_height = 800\<rparr>"

section \<open>Tree layout: \<open>calculateLayout\<close>\<close>

text \<open>
  Layout nodes are JavaScript objects that \<open>buildHierarchy\<close> creates and
  \<open>positionNodes\<close> mutates while other objects and the result arrays refer to them. The
  model has an explicit store: a reference is an index into the list of all objects created
  so far, \<open>children\<close>, \<open>parent\<close>, the \<open>nodes\<close> array and the ends of a link hold
  references, and an assignment to a field updates the store at that reference.
\<close>

type_synonym ref = nat

record LayoutNode =
  ln_id :: string
  ln_name :: string
  ln_children :: "ref list"
  ln_x :: real
  ln_y :: real
  ln_depth :: nat
  ln_width :: real
  ln_height :: real
  ln_sourceData :: IdNode
  ln_parent :: "ref option"

text \<open>
  The path string \<open>M sx sy C c1x sy, c2x ty, tx ty\<close> of a link is kept as the six numbers
  it prints.
\<close>

datatype PathData = PathData real real real real real real

record LayoutLink =
  link_id :: string
  link_source :: ref
  link_target :: ref
  link_d :: PathData

text \<open>
  The store together with the three variables of \<open>calculateLayout\<close> that its two inner
  functions share.
\<close>

record LayoutState =
  heap :: "LayoutNode list"
  nodes :: "ref list"
  links :: "LayoutLink list"
  yCounter :: real

definition modify :: "ref \<Rightarrow> (LayoutNode \<Rightarrow> LayoutNode) \<Rightarrow> LayoutNode list \<Rightarrow> LayoutNode list" where
  "modify r f h = h[r := f (h ! r)]"

text \<open>
  \<open>buildHierarchy(nodeData, depth, parent)\<close>. The text measurement \<open>getTextWidth\<close> depends
  on the browser's canvas and is a parameter, as is the expansion set that the callback
  closes over. \<open>buildChildren\<close> is the \<open>.map\<close> over the children, left to right.
\<close>

fun buildHierarchy ::
    "(string \<Rightarrow> string \<Rightarrow> real) \<Rightarrow> string set \<Rightarrow> IdNode \<Rightarrow> nat \<Rightarrow> ref option \<Rightarrow>
       LayoutState \<Rightarrow> ref \<times> LayoutState"
  and buildChildren ::
    "(string \<Rightarrow> string \<Rightarrow> real) \<Rightarrow> string set \<Rightarrow> IdNode list \<Rightarrow> nat \<Rightarrow> ref option \<Rightarrow>
       LayoutState \<Rightarrow> ref list \<times> LayoutState"
where
  "buildHierarchy getTextWidth expandedNodes (IdNode i t cs) dep par s =
     (let isExpanded = i \<in> expandedNodes;
          textWidth = getTextWidth t ''500 16px sans-serif'';
          nodeWidth = max MIN_NODE_WIDTH (textWidth + NODE_HORIZONTAL_PADDING);
          layoutNode = length (heap s);
          s1 = s\<lparr>heap := heap s @
                 [\<lparr>ln_id = i, ln_name = t, ln_children = [], ln_x = 0, ln_y = 0, ln_depth = dep,
                   ln_width = nodeWidth, ln_height = NODE_HEIGHT, ln_sourceData = IdNode i t cs,
                   ln_parent = par\<rparr>]\<rparr>;
          s2 = (if isExpanded then
                  (let (kids, s') =
                         buildChildren getTextWidth expandedNodes cs (dep + 1) (Some layoutNode) s1
                   in s'\<lparr>heap := modify layoutNode (\<lambda>n. n\<lparr>ln_children := kids\<rparr>) (heap s')\<rparr>)
                else s1);
          kids = ln_children (heap s2 ! layoutNode)
      in if length kids > 0 then
           (let childrenYSum = foldl (\<lambda>sum child. sum + ln_y (heap s2 ! child)) 0 kids
            in (layoutNode,
                s2\<lparr>heap := modify layoutNode
                              (\<lambda>n. n\<lparr>ln_y := childrenYSum / real (length kids)\<rparr>) (heap s2)\<rparr>))
         else
           (layoutNode,
            s2\<lparr>heap := modify layoutNode (\<lambda>n. n\<lparr>ln_y := yCounter s2\<rparr>) (heap s2),
               yCounter := yCounter s2 + (NODE_HEIGHT + VERTICAL_SPACING)\<rparr>))"
| "buildChildren getTextWidth expandedNodes [] dep par s = ([], s)"
| "buildChildren getTextWidth expandedNodes (c # cs) dep par s =
     (let (r, s1) = buildHierarchy getTextWidth expandedNodes c dep par s;
          (rs, s2) = buildChildren getTextWidth expandedNodes cs dep par s1
      in (r # rs, s2))"

text \<open>
  \<open>positionNodes(node, yOffset, parentX, parentWidth)\<close> follows the \<open>children\<close>
  references of the store, so its recursion is bounded by a fuel argument: \<open>None\<close> means
  the fuel ran out. \<open>positionChildren\<close> is the \<open>forEach\<close> over the children; its callback
  reads \<open>node.x\<close> and \<open>node.width\<close> anew for each child.
\<close>

fun positionNodes ::
    "nat \<Rightarrow> real \<Rightarrow> ref \<Rightarrow> real \<Rightarrow> real \<Rightarrow> real \<Rightarrow> LayoutState \<Rightarrow> LayoutState option"
  and positionChildren ::
    "nat \<Rightarrow> real \<Rightarrow> ref list \<Rightarrow> real \<Rightarrow> ref \<Rightarrow> LayoutState \<Rightarrow> LayoutState option"
where
  "positionNodes 0 containerWidth node yOffset parentX parentWidth s = None"
| "positionNodes (Suc fuel) containerWidth node yOffset parentX parentWidth s =
     (let s1 = (case ln_parent (heap s ! node) of
                  Some p \<Rightarrow>
                    s\<lparr>heap := modify node
                      (\<lambda>n. n\<lparr>ln_x := parentX + (parentWidth / 2 + HORIZONTAL_SPACING + ln_width n / 2)\<rparr>)
                      (heap s)\<rparr>
                | None \<Rightarrow>
                    s\<lparr>heap := modify node
                      (\<lambda>n. n\<lparr>ln_x := (- containerWidth / 2) + (ln_width n / 2) + 50\<rparr>) (heap s)\<rparr>);
          s2 = s1\<lparr>heap := modify node (\<lambda>n. n\<lparr>ln_y := ln_y n + yOffset\<rparr>) (heap s1)\<rparr>;
          s3 = s2\<lparr>nodes := nodes s2 @ [node]\<rparr>;
          s4 = (case ln_parent (heap s3 ! node) of
                  Some p \<Rightarrow>
                    (let n = heap s3 ! node;
                         pn = heap s3 ! p;
                         sx = ln_x pn + ln_width pn / 2 + CHEVRON_OFFSET;
                         sy = ln_y pn;
                         tx = ln_x n - ln_width n / 2;
                         ty = ln_y n;
                         c1x = sx + (HORIZONTAL_SPACING / 1.5);
                         c2x = tx - (HORIZONTAL_SPACING / 1.5);
                         d = PathData sx sy c1x c2x tx ty
                     in s3\<lparr>links := links s3 @
                            [\<lparr>link_id = ln_id pn @ ''-'' @ ln_id n, link_source = p,
                              link_target = node, link_d = d\<rparr>]\<rparr>)
                | None \<Rightarrow> s3)
      in positionChildren fuel containerWidth (ln_children (heap s4 ! node)) yOffset node s4)"
| "positionChildren fuel containerWidth [] yOffset node s = Some s"
| "positionChildren fuel containerWidth (child # rest) yOffset node s =
     (case positionNodes fuel containerWidth child yOffset
             (ln_x (heap s ! node)) (ln_width (heap s ! node)) s of
        None \<Rightarrow> None
      | Some s' \<Rightarrow> positionChildren fuel containerWidth rest yOffset node s')"

text \<open>
  \<open>calculateLayout(rootNode, containerWidth)\<close>: the result is the final state, whose
  \<open>nodes\<close> and \<open>links\<close> are the two arrays returned and whose store holds the objects
  they refer to.
\<close>

definition calculateLayout ::
    "nat \<Rightarrow> (string \<Rightarrow> string \<Rightarrow> real) \<Rightarrow> string set \<Rightarrow> IdNode \<Rightarrow> real \<Rightarrow> LayoutState option" where
  "calculateLayout fuel getTextWidth expandedNodes rootNode containerWidth =
     (let s0 = \<lparr>heap = [], nodes = [], links = [], yCounter = 0\<rparr>;
          (hierarchy, s1) = buildHierarchy getTextWidth expandedNodes rootNode 0 None s0;
          yCorrection = - ln_y (heap s1 ! hierarchy)
      in positionNodes fuel containerWidth hierarchy yCorrection 0 0 s1)"

text \<open>The fallback of \<open>getTextWidth\<close> when no canvas context exists: 8 pixels per character.\<close>

definition fallbackTextWidth :: "string \<Rightarrow> string \<Rightarrow> real" where
  "fallbackTextWidth text font = real (length text) * 8"

text \<open>The tree of the end-to-end scenario, before and after \<open>addIds\<close>.\<close>

definition scenarioTree :: MindMapNode where
  "scenarioTree =
     MindMapNode None ''A''
       [MindMapNode None ''B'' [],
        MindMapNode None ''C'' [MindMapNode None ''D'' []]]"

text \<open>
  \<open>setInitialExpandedState(mapData)\<close>, as a function of \<open>mapData.data.roots\<close>: the
  expansion set becomes the identifier of the first root, or empty when there is none.
\<close>

definition setInitialExpandedState :: "MindMapNode list \<Rightarrow> string set" where
  "setInitialExpandedState roots =
     (case roots of
        r # rest \<Rightarrow> {node_id (addIdsRoot r)}
      | [] \<Rightarrow> {})"

text \<open>
  The layout of the scenario tree with \<open>A\<close> and \<open>C\<close> expanded, a container 1000 wide and
  the fallback text measurement, as the source computes it: all four nodes are 120 wide,
  \<open>B\<close> is the first leaf, \<open>D\<close> the second, and the root is moved to \<open>y = 0\<close>.
\<close>

definition scenarioLayout :: LayoutState where
  "scenarioLayout =
     \<lparr>heap =
        [\<lparr>ln_id = ''root-A'', ln_name = ''A'', ln_children = [1, 2], ln_x = -390, ln_y = 0,
          ln_depth = 0, ln_width = 120, ln_height = 50,
          ln_sourceData = addIdsRoot scenarioTree, ln_parent = None\<rparr>,
         \<lparr>ln_id = ''root-A-0-B'', ln_name = ''B'', ln_children = [], ln_x = -210, ln_y = -35,
          ln_depth = 1, ln_width = 120, ln_height = 50,
          ln_sourceData = IdNode ''root-A-0-B'' ''B'' [], ln_parent = Some 0\<rparr>,
         \<lparr>ln_id = ''root-A-1-C'', ln_name = ''C'', ln_children = [3], ln_x = -210, ln_y = 35,
          ln_depth = 1, ln_width = 120, ln_height = 50,
          ln_sourceData = IdNode ''root-A-1-C'' ''C'' [IdNode ''root-A-1-C-0-D'' ''D'' []],
          ln_parent = Some 0\<rparr>,
         \<lparr>ln_id = ''root-A-1-C-0-D'', ln_name = ''D'', ln_children = [], ln_x = -30, ln_y = 35,
          ln_depth = 2, ln_width = 120, ln_height = 50,
          ln_sourceData = IdNode ''root-A-1-C-0-D'' ''D'' [], ln_parent = Some 2\<rparr>],
      nodes = [0, 1, 2, 3],
      links =
        [\<lparr>link_id = ''root-A-root-A-0-B'', link_source = 0, link_target = 1,
          link_d = PathData (-314) 0 (-274) (-310) (-270) (-35)\<rparr>,
         \<lparr>link_id = ''root-A-root-A-1-C'', link_source = 0, link_target = 2,
          link_d = PathData (-314) 0 (-274) (-310) (-270) 35\<rparr>,
         \<lparr>link_id = ''root-A-1-C-root-A-1-C-0-D'', link_source = 2, link_target = 3,
          link_d = PathData (-134) 35 (-94) (-130) (-90) 35\<rparr>],
      yCounter = 140\<rparr>"

text \<open>
  The layout of the scenario tree in its initial state, only \<open>A\<close> expanded, with the same
  container and text measurement.
\<close>

definition scenarioInitialLayout :: LayoutState where
  "scenarioInitialLayout =
     \<lparr>heap =
        [\<lparr>ln_id = ''root-A'', ln_name = ''A'', ln_children = [1, 2], ln_x = -390, ln_y = 0,
          ln_depth = 0, ln_width = 120, ln_height = 50,
          ln_sourceData = addIdsRoot scenarioTree, ln_parent = None\<rparr>,
         \<lparr>ln_id = ''root-A-0-B'', ln_name = ''B'', ln_children = [], ln_x = -210, ln_y = -35,
          ln_depth = 1, ln_width = 120, ln_height = 50,
          ln_sourceData = IdNode ''root-A-0-B'' ''B'' [], ln_parent = Some 0\<rparr>,
         \<lparr>ln_id = ''root-A-1-C'', ln_name = ''C'', ln_children = [], ln_x = -210, ln_y = 35,
          ln_depth = 1, ln_width = 120, ln_height = 50,
          ln_sourceData = IdNode ''root-A-1-C'' ''C'' [IdNode ''root-A-1-C-0-D'' ''D'' []],
          ln_parent = Some 0\<rparr>],
      nodes = [0, 1, 2],
      links =
        [\<lparr>link_id = ''root-A-root-A-0-B'', link_source = 0, link_target = 1,
          link_d = PathData (-314) 0 (-274) (-310) (-270) (-35)\<rparr>,
         \<lparr>link_id = ''root-A-root-A-1-C'', link_source = 0, link_target = 2,
          link_d = PathData (-314) 0 (-274) (-310) (-270) 35\<rparr>],
      yCounter = 140\<rparr>"

subsection \<open>The shape of the store\<close>

text \<open>
  For the proofs, the objects reachable from a layout node are described by a tree of
  references. \<open>shaped h p t\<close> says that the store \<open>h\<close> holds the tree \<open>t\<close>: the root
  object has parent \<open>p\<close>, its \<open>children\<close> array lists the roots of the subtrees, and so
  on downwards. \<open>centered h t\<close> says that in \<open>h\<close> every object of \<open>t\<close> with children
  has as \<open>y\<close> the mean of its children's \<open>y\<close>.
\<close>

datatype rtree = RT ref "rtree list"

fun rroot :: "rtree \<Rightarrow> ref" where
  "rroot (RT r ts) = r"

fun refs :: "rtree \<Rightarrow> ref list" where
  "refs (RT r ts) = r # concat (map refs ts)"

fun shaped :: "LayoutNode list \<Rightarrow> ref option \<Rightarrow> rtree \<Rightarrow> bool" where
  "shaped h p (RT r ts) =
     (r < length h \<and> ln_parent (h ! r) = p \<and> ln_children (h ! r) = map rroot ts \<and>
      (\<forall>t \<in> set ts. shaped h (Some r) t))"

definition childrenMean :: "LayoutNode list \<Rightarrow> ref \<Rightarrow> real" where
  "childrenMean h r =
     sum_list (map (\<lambda>c. ln_y (h ! c)) (ln_children (h ! r))) / real (length (ln_children (h ! r)))"

fun centered :: "LayoutNode list \<Rightarrow> rtree \<Rightarrow> bool" where
  "centered h (RT r ts) =
     ((ln_children (h ! r) \<noteq> [] \<longrightarrow> ln_y (h ! r) = childrenMean h r) \<and>
      (\<forall>t \<in> set ts. centered h t))"

text \<open>What a later state keeps of an earlier one while objects are only added.\<close>

definition extends :: "LayoutState \<Rightarrow> LayoutState \<Rightarrow> bool" where
  "extends s s' =
     (nodes s' = nodes s \<and> links s' = links s \<and> length (heap s) \<le> length (heap s') \<and>
      (\<forall>a < length (heap s). heap s' ! a = heap s ! a))"

definition built :: "LayoutNode list \<Rightarrow> ref option \<Rightarrow> nat \<Rightarrow> rtree list \<Rightarrow> bool" where
  "built h p lo ts =
     ((\<forall>t \<in> set ts. shaped h p t \<and> centered h t) \<and> distinct (concat (map refs ts)) \<and>
      set (concat (map refs ts)) = {lo..<length h})"

definition buildPost :: "IdNode \<Rightarrow> ref option \<Rightarrow> LayoutState \<Rightarrow> ref \<Rightarrow> LayoutState \<Rightarrow> bool" where
  "buildPost nd p s r s' =
     (r = length (heap s) \<and> extends s s' \<and>
      length (heap s') \<le> length (heap s) + length (allNodes nd) \<and>
      ln_sourceData (heap s' ! r) = nd \<and>
      (\<exists>t. rroot t = r \<and> built (heap s') p (length (heap s)) [t]))"

definition buildChildrenPost ::
    "IdNode list \<Rightarrow> ref option \<Rightarrow> LayoutState \<Rightarrow> ref list \<Rightarrow> LayoutState \<Rightarrow> bool" where
  "buildChildrenPost cs p s rs s' =
     (extends s s' \<and>
      length (heap s') \<le> length (heap s) + length (concat (map allNodes cs)) \<and>
      (\<exists>ts. map rroot ts = rs \<and> built (heap s') p (length (heap s)) ts))"

text \<open>
  What \<open>positionNodes\<close> does to the objects \<open>rs\<close> it visits, for a \<open>yOffset\<close> of
  \<open>yo\<close>: they are pushed to \<open>nodes\<close> in order, each has its \<open>y\<close> shifted once and its
  \<open>parent\<close>, \<open>children\<close>, \<open>sourceData\<close> and \<open>name\<close> kept, no other object changes, and one link is pushed for
  every visited object that has a parent, from that parent.
\<close>

definition positioned :: "real \<Rightarrow> LayoutState \<Rightarrow> ref list \<Rightarrow> LayoutState \<Rightarrow> bool" where
  "positioned yo s rs s' =
     (nodes s' = nodes s @ rs \<and> length (heap s') = length (heap s) \<and>
      (\<forall>a. a \<notin> set rs \<longrightarrow> heap s' ! a = heap s ! a) \<and>
      (\<forall>a \<in> set rs.
         ln_parent (heap s' ! a) = ln_parent (heap s ! a) \<and>
         ln_children (heap s' ! a) = ln_children (heap s ! a) \<and>
         ln_sourceData (heap s' ! a) = ln_sourceData (heap s ! a) \<and>
         ln_name (heap s' ! a) = ln_name (heap s ! a) \<and>
         ln_y (heap s' ! a) = ln_y (heap s ! a) + yo) \<and>
      (\<exists>ls. links s' = links s @ ls \<and>
         map link_target ls = filter (\<lambda>a. ln_parent (heap s ! a) \<noteq> None) rs \<and>
         (\<forall>l \<in> set ls. ln_parent (heap s ! link_target l) = Some (link_source l))))"

section \<open>Properties of identifier assignment\<close>

lemma digitChar_inj: "a < 10 \<Longrightarrow> b < 10 \<Longrightarrow> digitChar a = digitChar b \<Longrightarrow> a = b"
proof -
  assume a: "a < 10" and b: "b < 10" and e: "digitChar a = digitChar b"
  from a have "a \<in> {0,1,2,3,4,5,6,7,8,9}" by auto
  moreover from b have "b \<in> {0,1,2,3,4,5,6,7,8,9}" by auto
  ultimately show ?thesis using e
    by (auto simp: digitChar_def)
qed

lemma digitChar_not_dash: "a < 10 \<Longrightarrow> digitChar a \<noteq> CHR ''-''"
proof -
  assume a: "a < 10"
  from a have "a \<in> {0,1,2,3,4,5,6,7,8,9}" by auto
  then show ?thesis by (auto simp: digitChar_def)
qed

lemma toString_not_Nil: "toString n \<noteq> []"
  by (subst toString.simps) simp

lemma toString_no_dash: "CHR ''-'' \<notin> set (toString n)"
proof (induction n rule: toString.induct)
  case (1 n)
  show ?case
  proof (cases "n < 10")
    case True
    then show ?thesis using digitChar_not_dash[of n] by (subst toString.simps) auto
  next
    case False
    moreover have "n mod 10 < 10" by simp
    ultimately show ?thesis using 1 digitChar_not_dash[of "n mod 10"]
      by (subst toString.simps) auto
  qed
qed

text \<open>Decimal printing is injective: two indices with the same digits are equal.\<close>

lemma toString_inj: "toString i = toString j \<Longrightarrow> i = j"
proof (induction i arbitrary: j rule: toString.induct)
  case (1 n)
  show ?case
  proof (cases "n < 10")
    case True
    then have n: "toString n = [digitChar n]" by (subst toString.simps) simp
    show ?thesis
    proof (cases "j < 10")
      case True
      then have "toString j = [digitChar j]" by (subst toString.simps) simp
      with n 1(2) \<open>n < 10\<close> True show ?thesis by (auto dest: digitChar_inj)
    next
      case False
      then have "toString j = toString (j div 10) @ [digitChar (j mod 10)]"
        by (subst toString.simps) simp
      with n 1(2) toString_not_Nil[of "j div 10"] show ?thesis
        by (cases "toString (j div 10)") auto
    qed
  next
    case False
    then have n: "toString n = toString (n div 10) @ [digitChar (n mod 10)]"
      by (subst toString.simps) simp
    show ?thesis
    proof (cases "j < 10")
      case True
      then have "toString j = [digitChar j]" by (subst toString.simps) simp
      with n 1(2) toString_not_Nil[of "n div 10"] show ?thesis
        by (cases "toString (n div 10)") auto
    next
      case j: False
      then have "toString j = toString (j div 10) @ [digitChar (j mod 10)]"
        by (subst toString.simps) simp
      with n 1(2) have a: "toString (n div 10) = toString (j div 10)"
        and b: "digitChar (n mod 10) = digitChar (j mod 10)" by auto
      from 1(1)[OF False a] have "n div 10 = j div 10" .
      moreover from b have "n mod 10 = j mod 10" by (auto dest!: digitChar_inj[rotated 2])
      ultimately show ?thesis by (metis div_mult_mod_eq)
    qed
  qed
qed

text \<open>
  An index followed by a dash can be read back from the front of a string: the digits end
  at the first dash.
\<close>

lemma toString_sep_inj:
  "toString i @ CHR ''-'' # r = toString j @ CHR ''-'' # r' \<Longrightarrow> i = j"
proof -
  assume "toString i @ CHR ''-'' # r = toString j @ CHR ''-'' # r'"
  then have "takeWhile (\<lambda>c. c \<noteq> CHR ''-'') (toString i @ CHR ''-'' # r) =
      takeWhile (\<lambda>c. c \<noteq> CHR ''-'') (toString j @ CHR ''-'' # r')" by simp
  moreover have "takeWhile (\<lambda>c. c \<noteq> CHR ''-'') (toString k @ CHR ''-'' # q) = toString k" for k q
    using toString_no_dash[of k] by (subst takeWhile_append2) auto
  ultimately have "toString i = toString j" by simp
  then show ?thesis by (rule toString_inj)
qed

lemma allIds_addIds:
  "allIds (addIds (MindMapNode u t cs) p) =
     (p @ ''-'' @ sanitize t) #
     concat (map (\<lambda>(i, c). allIds (addIds c ((p @ ''-'' @ sanitize t) @ ''-'' @ toString i)))
               (enumerate 0 cs))"
  by (simp add: allIds_def Let_def map_concat comp_def case_prod_unfold)

text \<open>Every identifier assigned below a prefix starts with that prefix and a dash.\<close>

lemma allIds_prefix:
  "x \<in> set (allIds (addIds t p)) \<Longrightarrow> \<exists>r. x = p @ CHR ''-'' # r"
proof (induction t arbitrary: p x)
  case (MindMapNode u t cs)
  from MindMapNode.prems consider
    (self) "x = p @ ''-'' @ sanitize t"
  | (sub) i c where "(i, c) \<in> set (enumerate 0 cs)"
      "x \<in> set (allIds (addIds c ((p @ ''-'' @ sanitize t) @ ''-'' @ toString i)))"
    unfolding allIds_addIds by auto
  then show ?case
  proof cases
    case self
    then show ?thesis by simp
  next
    case sub
    from sub(1) have "c \<in> set cs" by (auto simp: in_set_enumerate_eq)
    from MindMapNode.IH[OF this sub(2)] show ?thesis by auto
  qed
qed

lemma allIds_children_distinct:
  assumes "\<And>c p. c \<in> set cs \<Longrightarrow> distinct (allIds (addIds c p))"
  shows "distinct (concat (map (\<lambda>(i, c). allIds (addIds c (q @ ''-'' @ toString i)))
                             (enumerate n cs)))"
  using assms
proof (induction cs arbitrary: n)
  case Nil
  then show ?case by simp
next
  case (Cons c cs)
  have rest: "distinct (concat (map (\<lambda>(i, c). allIds (addIds c (q @ ''-'' @ toString i)))
                                  (enumerate (Suc n) cs)))"
    by (rule Cons.IH) (simp add: Cons.prems)
  have first: "distinct (allIds (addIds c (q @ ''-'' @ toString n)))"
    by (simp add: Cons.prems)
  have disj: False
    if a: "x \<in> set (allIds (addIds c (q @ ''-'' @ toString n)))"
    and b: "(j, c') \<in> set (enumerate (Suc n) cs)"
    and c: "x \<in> set (allIds (addIds c' (q @ ''-'' @ toString j)))" for x j c'
  proof -
    from allIds_prefix[OF a] obtain r
      where r: "x = (q @ ''-'' @ toString n) @ CHR ''-'' # r" by blast
    from allIds_prefix[OF c] obtain r'
      where r': "x = (q @ ''-'' @ toString j) @ CHR ''-'' # r'" by blast
    from r r' have "toString n @ CHR ''-'' # r = toString j @ CHR ''-'' # r'" by simp
    then have "n = j" by (rule toString_sep_inj)
    moreover from b have "Suc n \<le> j" by (simp add: in_set_enumerate_eq)
    ultimately show False by simp
  qed
  show ?case using rest first disj by (auto simp: case_prod_unfold)
qed

text \<open>
  \<^bold>\<open>C3\<close> (as amended). The claim puts the sibling index after the label:
  \<open>parentId-sanitize(label)-index\<close>. The code passes \<open>`${id}-${i}`\<close> as the child's
  prefix, so the index comes first: in the tree that \<open>addIds\<close> returns, the child at
  position \<open>i\<close> of any node has the identifier
  \<open>parentId + "-" + i + "-" + sanitize(label)\<close>, where \<open>sanitize\<close> replaces every
  character that is not an ASCII letter or digit by a dash.
\<close>

theorem addIds_child_id:
  assumes "n \<in> set (allNodes (addIds t p))" and "i < length (children n)"
  shows "node_id (children n ! i) =
           node_id n @ ''-'' @ toString i @ ''-'' @ sanitize (topic (children n ! i))"
  using assms
proof (induction t arbitrary: p n)
  case (MindMapNode u t cs)
  let ?id = "p @ ''-'' @ sanitize t"
  from MindMapNode.prems(1) consider
    (self) "n = addIds (MindMapNode u t cs) p"
  | (sub) j c where "(j, c) \<in> set (enumerate 0 cs)"
      "n \<in> set (allNodes (addIds c (?id @ ''-'' @ toString j)))"
    by (auto simp: Let_def)
  then show ?case
  proof cases
    case self
    with MindMapNode.prems(2) have i: "i < length cs" by (simp add: Let_def)
    obtain u' t' cs' where c: "cs ! i = MindMapNode u' t' cs'" by (cases "cs ! i")
    from i c show ?thesis unfolding self
      by (simp add: Let_def nth_enumerate_eq)
  next
    case sub
    from sub(1) have "c \<in> set cs" by (auto simp: in_set_enumerate_eq)
    from MindMapNode.IH[OF this sub(2) MindMapNode.prems(2)] show ?thesis .
  qed
qed

text \<open>
  The amended statement at the root of a two-level tree: the only child of \<open>Map\<close>,
  labelled \<open>Key idea\<close>, gets \<open>root-Map-0-Key-idea\<close>.
\<close>

theorem addIds_child_id_witness:
  "addIdsRoot (MindMapNode None ''Map'' [MindMapNode None ''Key idea'' []])
     \<in> set (allNodes (addIdsRoot (MindMapNode None ''Map'' [MindMapNode None ''Key idea'' []]))) \<and>
   0 < length (children (addIdsRoot (MindMapNode None ''Map'' [MindMapNode None ''Key idea'' []]))) \<and>
   node_id (children (addIdsRoot (MindMapNode None ''Map'' [MindMapNode None ''Key idea'' []])) ! 0)
     = ''root-Map-0-Key-idea''"
proof -
  let ?t = "MindMapNode None ''Map'' [MindMapNode None ''Key idea'' []]"
  have n: "addIds ?t ''root'' \<in> set (allNodes (addIds ?t ''root''))"
    by (simp add: Let_def)
  have i: "0 < length (children (addIds ?t ''root''))"
    by (simp add: Let_def)
  from addIds_child_id[OF n i] n i show ?thesis
    by (simp add: addIdsRoot_def Let_def sanitize_def isAlnum_def toString.simps digitChar_def)
qed

text \<open>
  The claim as stated fails on that tree: the identifier the claim predicts,
  \<open>root-Map-Key-idea-0\<close>, is not the one assigned.
\<close>

theorem addIds_label_then_index_counterexample:
  "node_id (children (addIdsRoot (MindMapNode None ''Map'' [MindMapNode None ''Key idea'' []])) ! 0)
     \<noteq> node_id (addIdsRoot (MindMapNode None ''Map'' [MindMapNode None ''Key idea'' []]))
          @ ''-'' @ sanitize ''Key idea'' @ ''-'' @ toString 0"
  by (simp add: addIdsRoot_def Let_def sanitize_def isAlnum_def toString.simps digitChar_def)

text \<open>
  \<^bold>\<open>C4\<close>. The identifiers that \<open>addIds\<close> assigns in one tree are pairwise distinct,
  whatever the labels are, equal sibling labels included: the list of all identifiers of the
  result has no repetition.
\<close>

theorem addIds_ids_distinct: "distinct (allIds (addIds t p))"
proof (induction t arbitrary: p)
  case (MindMapNode u t cs)
  let ?id = "p @ ''-'' @ sanitize t"
  have kids: "distinct (concat (map (\<lambda>(i, c). allIds (addIds c (?id @ ''-'' @ toString i)))
                                  (enumerate 0 cs)))"
    by (rule allIds_children_distinct) (rule MindMapNode.IH)
  have own: False
    if "(i, c) \<in> set (enumerate 0 cs)"
       "?id \<in> set (allIds (addIds c (?id @ ''-'' @ toString i)))" for i c
  proof -
    from allIds_prefix[OF that(2)] obtain r
      where "?id = (?id @ ''-'' @ toString i) @ CHR ''-'' # r" by blast
    then have "length ?id = length ((?id @ ''-'' @ toString i) @ CHR ''-'' # r)"
      by (rule arg_cong)
    then show False by simp
  qed
  show ?case unfolding allIds_addIds using kids own by auto
qed

text \<open>Two siblings labelled \<open>Overview\<close> under one parent get different identifiers.\<close>

theorem addIds_ids_distinct_witness:
  "allIds (addIdsRoot (MindMapNode None ''Map''
      [MindMapNode None ''Overview'' [], MindMapNode None ''Overview'' []]))
     = [''root-Map'', ''root-Map-0-Overview'', ''root-Map-1-Overview''] \<and>
   distinct (allIds (addIdsRoot (MindMapNode None ''Map''
      [MindMapNode None ''Overview'' [], MindMapNode None ''Overview'' []])))"
  using addIds_ids_distinct[of "MindMapNode None ''Map''
      [MindMapNode None ''Overview'' [], MindMapNode None ''Overview'' []]" "''root''"]
  by (simp add: addIdsRoot_def allIds_def Let_def sanitize_def isAlnum_def toString.simps
        digitChar_def enumerate_eq_zip upt_rec)

section \<open>Properties of the expansion state\<close>

text \<open>
  \<^bold>\<open>C9\<close>. Toggling an identifier twice gives back the expansion set one started from,
  and toggling an identifier that is not in the set gives the set with that identifier
  added and nothing else changed.
\<close>

theorem toggle_round_trip:
  "toggleNode nodeId (toggleNode nodeId s) = s \<and>
   (nodeId \<notin> s \<longrightarrow> toggleNode nodeId s = insert nodeId s)"
  by (auto simp: toggleNode_def)

theorem toggle_round_trip_witness:
  "''root-A-0-B'' \<notin> {''root-A''} \<and>
   toggleNode ''root-A-0-B'' (toggleNode ''root-A-0-B'' {''root-A''}) = {''root-A''} \<and>
   toggleNode ''root-A-0-B'' {''root-A''} = {''root-A-0-B'', ''root-A''}"
proof -
  have h: "''root-A-0-B'' \<notin> {''root-A''}" by simp
  have "toggleNode ''root-A-0-B'' (toggleNode ''root-A-0-B'' {''root-A''}) = {''root-A''} \<and>
    (''root-A-0-B'' \<notin> {''root-A''} \<longrightarrow>
       toggleNode ''root-A-0-B'' {''root-A''} = insert ''root-A-0-B'' {''root-A''})"
    by (rule toggle_round_trip)
  with h show ?thesis by blast
qed

section \<open>Properties of the viewport handlers\<close>

lemma applyZoom_width:
  "MIN_ZOOM_WIDTH \<le> vw (viewBox (applyZoom (Some svg) z st)) \<and>
   vw (viewBox (applyZoom (Some svg) z st)) \<le> MAX_ZOOM_WIDTH"
  by (cases z)
     (simp_all add: handleButtonZoom_def handleWheel_def Let_def
        MIN_ZOOM_WIDTH_def MAX_ZOOM_WIDTH_def)

text \<open>After at least one zoom operation of any kind the width lies between both limits.\<close>

lemma fold_applyZoom_width:
  "ops \<noteq> [] \<Longrightarrow>
   MIN_ZOOM_WIDTH \<le> vw (viewBox (fold (applyZoom (Some svg)) ops st)) \<and>
   vw (viewBox (fold (applyZoom (Some svg)) ops st)) \<le> MAX_ZOOM_WIDTH"
proof (induction ops arbitrary: st rule: rev_induct)
  case Nil
  then show ?case by simp
next
  case (snoc z zs)
  show ?case using applyZoom_width[of svg z "fold (applyZoom (Some svg)) zs st"] by simp
qed

text \<open>
  \<^bold>\<open>C6\<close>. Zoom focus: with the surface mounted, of nonzero pixel size, and a view box
  of nonzero width (so that no division of the handler is a division by zero), the pixel
  position of a wheel event converts to the same scene point through the view box that
  \<open>handleWheel\<close> leaves as through the one it started from. This holds for either
  zoom direction, over the reals.
\<close>

theorem wheel_zoom_focus:
  assumes "rect_width svgRect \<noteq> 0" and "rect_height svgRect \<noteq> 0"
    and "vw (viewBox st) \<noteq> 0"
  shows "toScene (viewBox (handleWheel (Some svgRect) e st)) svgRect
           (clientX e - rect_left svgRect, clientY e - rect_top svgRect) =
         toScene (viewBox st) svgRect
           (clientX e - rect_left svgRect, clientY e - rect_top svgRect)"
  by (simp add: toScene_def handleWheel_def Let_def)

text \<open>
  A wheel-in at pixel (250, 200) of a 1000 by 800 surface: the view box shrinks by the
  factor 1.1 and the point keeps its scene coordinates (-250, -200).
\<close>

theorem wheel_zoom_focus_witness:
  "rect_width exampleRect \<noteq> 0 \<and> rect_height exampleRect \<noteq> 0 \<and> vw (viewBox exampleState) \<noteq> 0 \<and>
   viewBox (handleWheel (Some exampleRect) \<lparr>clientX = 250, clientY = 264, deltaY = -1\<rparr> exampleState)
     = \<lparr>vx = -5250/11, vy = -4200/11, vw = 10000/11, vh = 8000/11\<rparr> \<and>
   toScene (viewBox (handleWheel (Some exampleRect) \<lparr>clientX = 250, clientY = 264, deltaY = -1\<rparr>
              exampleState)) exampleRect (250, 200) = (-250, -200)"
  using wheel_zoom_focus[of exampleRect exampleState "\<lparr>clientX = 250, clientY = 264, deltaY = -1\<rparr>"]
  by (simp add: exampleState_def exampleRect_def toScene_def handleWheel_def Let_def
        MIN_ZOOM_WIDTH_def MAX_ZOOM_WIDTH_def)

text \<open>
  \<^bold>\<open>C7\<close>. Zoom clamping: with the surface mounted, after any sequence of one to 100
  zoom-in operations (button clicks and wheel events mixed) the width of the view box is at
  least \<open>MIN_ZOOM_WIDTH\<close>, and after any sequence of one to 100 zoom-out operations it is
  at most \<open>MAX_ZOOM_WIDTH\<close>, from every starting view box.
\<close>

theorem zoom_width_clamped:
  assumes "ops \<noteq> []" and "length ops \<le> 100"
  shows "(list_all isZoomIn ops \<longrightarrow>
            MIN_ZOOM_WIDTH \<le> vw (viewBox (fold (applyZoom (Some svg)) ops st))) \<and>
         (list_all isZoomOut ops \<longrightarrow>
            vw (viewBox (fold (applyZoom (Some svg)) ops st)) \<le> MAX_ZOOM_WIDTH)"
  using fold_applyZoom_width[OF assms(1)] by blast

theorem zoom_width_clamped_witness:
  "MIN_ZOOM_WIDTH \<le>
     vw (viewBox (fold (applyZoom (Some exampleRect)) (replicate 100 (ButtonZoom In)) exampleState)) \<and>
   vw (viewBox (fold (applyZoom (Some exampleRect))
         (replicate 100 (WheelZoom \<lparr>clientX = 250, clientY = 264, deltaY = 3\<rparr>)) exampleState))
     \<le> MAX_ZOOM_WIDTH"
  using zoom_width_clamped[of "replicate 100 (ButtonZoom In)" exampleRect exampleState]
    zoom_width_clamped[of "replicate 100 (WheelZoom \<lparr>clientX = 250, clientY = 264, deltaY = 3\<rparr>)"
      exampleRect exampleState]
  by (simp add: list_all_iff)

text \<open>
  \<^bold>\<open>C8\<close>. Pan translation: on a surface 1000 pixels wide (and of nonzero height), with a
  view box of width 1000, a mouse-down at pixel (100, 100) followed by a mouse-move to
  (150, 100) moves the view box by exactly -50 in x and leaves its y, width and height as
  they were.
\<close>

theorem pan_translation:
  assumes "vw (viewBox st) = 1000" and "rect_width svgRect = 1000"
    and "rect_height svgRect \<noteq> 0"
  shows "viewBox (handleMouseMove \<lparr>clientX = 150, clientY = 100\<rparr>
           (handleMouseDown (Some svgRect) \<lparr>clientX = 100, clientY = 100\<rparr> st)) =
         (viewBox st)\<lparr>vx := vx (viewBox st) - 50\<rparr>"
  using assms by (simp add: handleMouseMove_def handleMouseDown_def Let_def)

theorem pan_translation_witness:
  "vw (viewBox exampleState) = 1000 \<and> rect_width exampleRect = 1000 \<and>
   rect_height exampleRect \<noteq> 0 \<and>
   viewBox (handleMouseMove \<lparr>clientX = 150, clientY = 100\<rparr>
           (handleMouseDown (Some exampleRect) \<lparr>clientX = 100, clientY = 100\<rparr> exampleState)) =
   \<lparr>vx = -550, vy = -400, vw = 1000, vh = 800\<rparr>"
  using pan_translation[of exampleState exampleRect]
  by (simp add: exampleState_def exampleRect_def)

section \<open>Properties of the tree layout\<close>

subsection \<open>Store updates and the frame of a tree\<close>

lemma length_modify [simp]: "length (modify r f h) = length h"
  by (simp add: modify_def)

lemma nth_modify_other [simp]: "a \<noteq> r \<Longrightarrow> modify r f h ! a = h ! a"
  by (simp add: modify_def)

lemma nth_modify_same [simp]: "r < length h \<Longrightarrow> modify r f h ! r = f (h ! r)"
  by (simp add: modify_def)

lemma rroot_in_refs [simp]: "rroot t \<in> set (refs t)"
  by (cases t) simp

lemma shaped_frame:
  assumes "shaped h p t" and "length h \<le> length h'"
    and "\<And>a. a \<in> set (refs t) \<Longrightarrow>
           ln_parent (h' ! a) = ln_parent (h ! a) \<and> ln_children (h' ! a) = ln_children (h ! a)"
  shows "shaped h' p t"
  using assms
proof (induction t arbitrary: p)
  case (RT r ts)
  have "shaped h' (Some r) t'" if "t' \<in> set ts" for t'
  proof (rule RT.IH[OF that])
    show "shaped h (Some r) t'" using RT.prems(1) that by simp
    show "length h \<le> length h'" by (rule RT.prems(2))
    show "ln_parent (h' ! a) = ln_parent (h ! a) \<and> ln_children (h' ! a) = ln_children (h ! a)"
      if "a \<in> set (refs t')" for a
      using RT.prems(3)[of a] that \<open>t' \<in> set ts\<close> by auto
  qed
  moreover have "ln_parent (h' ! r) = ln_parent (h ! r) \<and> ln_children (h' ! r) = ln_children (h ! r)"
    using RT.prems(3)[of r] by simp
  ultimately show ?case using RT.prems(1,2) by simp
qed

lemma shaped_children_in_refs:
  "shaped h p t \<Longrightarrow> a \<in> set (refs t) \<Longrightarrow> set (ln_children (h ! a)) \<subseteq> set (refs t)"
proof (induction t arbitrary: p)
  case (RT r ts)
  show ?case
  proof (cases "a = r")
    case True
    have "rroot t' \<in> (\<Union>u \<in> set ts. set (refs u))" if "t' \<in> set ts" for t'
      using that rroot_in_refs by blast
    with RT.prems(1) True show ?thesis by auto
  next
    case False
    with RT.prems(2) obtain t' where t': "t' \<in> set ts" "a \<in> set (refs t')" by auto
    from RT.prems(1) t'(1) have "shaped h (Some r) t'" by simp
    from RT.IH[OF t'(1) this t'(2)] t'(1) show ?thesis by auto
  qed
qed

lemma childrenMean_frame:
  assumes "ln_children (h' ! r) = ln_children (h ! r)"
    and "\<And>c. c \<in> set (ln_children (h ! r)) \<Longrightarrow> ln_y (h' ! c) = ln_y (h ! c)"
  shows "childrenMean h' r = childrenMean h r"
proof -
  have m: "map (\<lambda>c. ln_y (h' ! c)) (ln_children (h ! r)) = map (\<lambda>c. ln_y (h ! c)) (ln_children (h ! r))"
    using assms(2) by (intro map_cong) auto
  show ?thesis unfolding childrenMean_def assms(1) m by (rule refl)
qed

lemma centered_frame:
  assumes "centered h t" and "shaped h p t"
    and "\<And>a. a \<in> set (refs t) \<Longrightarrow>
           ln_y (h' ! a) = ln_y (h ! a) \<and> ln_children (h' ! a) = ln_children (h ! a)"
  shows "centered h' t"
  using assms
proof (induction t arbitrary: p)
  case (RT r ts)
  have sub: "centered h' t'" if "t' \<in> set ts" for t'
  proof (rule RT.IH[OF that])
    show "centered h t'" using RT.prems(1) that by simp
    show "shaped h (Some r) t'" using RT.prems(2) that by simp
    show "ln_y (h' ! a) = ln_y (h ! a) \<and> ln_children (h' ! a) = ln_children (h ! a)"
      if "a \<in> set (refs t')" for a
      using RT.prems(3)[of a] that \<open>t' \<in> set ts\<close> by auto
  qed
  have r: "ln_y (h' ! r) = ln_y (h ! r)" "ln_children (h' ! r) = ln_children (h ! r)"
    using RT.prems(3)[of r] by simp_all
  have "childrenMean h' r = childrenMean h r"
  proof (rule childrenMean_frame[OF r(2)])
    fix c assume "c \<in> set (ln_children (h ! r))"
    with shaped_children_in_refs[OF RT.prems(2), of r] have "c \<in> set (refs (RT r ts))" by auto
    with RT.prems(3)[of c] show "ln_y (h' ! c) = ln_y (h ! c)" by simp
  qed
  with r sub RT.prems(1) show ?case by simp
qed

lemma foldl_add_sum_list:
  "foldl (\<lambda>sum child. sum + f child) a xs = a + sum_list (map f xs)" for a :: real
  by (induction xs arbitrary: a) simp_all

subsection \<open>What \<open>buildHierarchy\<close> builds\<close>

lemma extends_refl [simp]: "extends s s"
  by (simp add: extends_def)

lemma extends_trans: "extends s s1 \<Longrightarrow> extends s1 s2 \<Longrightarrow> extends s s2"
  by (auto simp: extends_def)

lemma built_frame:
  assumes b: "shaped h p t" "centered h t" "set (refs t) \<subseteq> {..<length h}"
    and len: "length h \<le> length h'" and same: "\<And>a. a < length h \<Longrightarrow> h' ! a = h ! a"
  shows "shaped h' p t \<and> centered h' t"
proof
  have eq: "h' ! a = h ! a" if "a \<in> set (refs t)" for a
    using b(3) that same by auto
  show "shaped h' p t" by (rule shaped_frame[OF b(1) len]) (simp add: eq)
  show "centered h' t" by (rule centered_frame[OF b(2) b(1)]) (simp add: eq)
qed

lemma buildChildren_post:
  assumes elem: "\<And>c d p s r s'. c \<in> set cs \<Longrightarrow> buildHierarchy g e c d p s = (r, s')
                   \<Longrightarrow> buildPost c p s r s'"
  shows "buildChildren g e cs d p s = (rs, s') \<Longrightarrow> buildChildrenPost cs p s rs s'"
  using elem
proof (induction cs arbitrary: s rs s')
  case Nil
  then have "rs = []" "s' = s" by simp_all
  moreover have "built (heap s) p (length (heap s)) []" by (simp add: built_def)
  ultimately show ?case unfolding buildChildrenPost_def by auto
next
  case (Cons c cs)
  obtain r s1 where bh: "buildHierarchy g e c d p s = (r, s1)" by (cases "buildHierarchy g e c d p s")
  obtain rs' s2 where bc: "buildChildren g e cs d p s1 = (rs', s2)"
    by (cases "buildChildren g e cs d p s1")
  from Cons.prems(1) bh bc have res: "rs = r # rs'" "s' = s2" by simp_all
  have p1: "buildPost c p s r s1" by (rule Cons.prems(2)[OF _ bh]) simp
  have p2: "buildChildrenPost cs p s1 rs' s2"
    by (rule Cons.IH[OF bc]) (auto intro: Cons.prems(2))
  from p1 obtain t where t: "rroot t = r" "built (heap s1) p (length (heap s)) [t]"
    and e1: "extends s s1" and l1: "length (heap s1) \<le> length (heap s) + length (allNodes c)"
    unfolding buildPost_def by blast
  from p2 obtain ts where ts: "map rroot ts = rs'" "built (heap s2) p (length (heap s1)) ts"
    and e2: "extends s1 s2"
    and l2: "length (heap s2) \<le> length (heap s1) + length (concat (map allNodes cs))"
    unfolding buildChildrenPost_def by blast
  from e1 e2 have le: "length (heap s) \<le> length (heap s1)" "length (heap s1) \<le> length (heap s2)"
    by (simp_all add: extends_def)
  from t(2) have tr: "set (refs t) = {length (heap s)..<length (heap s1)}"
    and td: "distinct (refs t)" and tsh: "shaped (heap s1) p t" and tc: "centered (heap s1) t"
    by (simp_all add: built_def)
  have "shaped (heap s2) p t \<and> centered (heap s2) t"
  proof (rule built_frame[OF tsh tc _ le(2)])
    show "set (refs t) \<subseteq> {..<length (heap s1)}" using tr by auto
    show "heap s2 ! a = heap s1 ! a" if "a < length (heap s1)" for a
      using e2 that by (simp add: extends_def)
  qed
  moreover from ts(2) have tsr: "set (concat (map refs ts)) = {length (heap s1)..<length (heap s2)}"
    and tsd: "distinct (concat (map refs ts))"
    and tss: "\<forall>t \<in> set ts. shaped (heap s2) p t \<and> centered (heap s2) t"
    by (simp_all add: built_def)
  moreover have "set (refs t) \<inter> set (concat (map refs ts)) = {}"
    unfolding tr tsr by auto
  moreover have "set (refs t) \<union> set (concat (map refs ts)) = {length (heap s)..<length (heap s2)}"
    unfolding tr tsr using le by auto
  ultimately have "built (heap s2) p (length (heap s)) (t # ts)"
    using td by (simp add: built_def)
  moreover have "map rroot (t # ts) = rs" using t(1) ts(1) res by simp
  moreover have "extends s s'" using extends_trans[OF e1 e2] res by simp
  moreover have "length (heap s') \<le> length (heap s) + length (concat (map allNodes (c # cs)))"
    using l1 l2 res by simp
  ultimately show ?case unfolding buildChildrenPost_def
    by (intro conjI exI[of _ "t # ts"]) (simp_all add: res)
qed

lemma buildHierarchy_collapsed:
  assumes "i \<notin> e" and "buildHierarchy g e (IdNode i t cs) d p s = (r, s')"
  shows "r = length (heap s) \<and> nodes s' = nodes s \<and> links s' = links s \<and>
         length (heap s') = Suc (length (heap s)) \<and>
         (\<forall>a < length (heap s). heap s' ! a = heap s ! a) \<and>
         ln_parent (heap s' ! r) = p \<and> ln_children (heap s' ! r) = [] \<and>
         ln_sourceData (heap s' ! r) = IdNode i t cs"
  using assms by (auto simp: Let_def modify_def nth_append)

lemma buildHierarchy_expanded:
  assumes "i \<in> e"
    and "buildChildren g e cs (d + 1) (Some (length (heap s)))
           (s\<lparr>heap := heap s @
                 [\<lparr>ln_id = i, ln_name = t, ln_children = [], ln_x = 0, ln_y = 0, ln_depth = d,
                   ln_width = max MIN_NODE_WIDTH (g t ''500 16px sans-serif'' + NODE_HORIZONTAL_PADDING),
                   ln_height = NODE_HEIGHT, ln_sourceData = IdNode i t cs,
                   ln_parent = p\<rparr>]\<rparr>) = (kids, sc)"
    and "heap sc ! length (heap s) = 
            \<lparr>ln_id = i, ln_name = t, ln_children = [], ln_x = 0, ln_y = 0, ln_depth = d,
                   ln_width = max MIN_NODE_WIDTH (g t ''500 16px sans-serif'' + NODE_HORIZONTAL_PADDING),
                   ln_height = NODE_HEIGHT, ln_sourceData = IdNode i t cs,
                   ln_parent = p\<rparr>"
    and "length (heap s) < length (heap sc)"
    and "length (heap s) \<notin> set kids"
    and "buildHierarchy g e (IdNode i t cs) d p s = (r, s')"
  shows "r = length (heap s) \<and> nodes s' = nodes sc \<and> links s' = links sc \<and>
         length (heap s') = length (heap sc) \<and>
         (\<forall>a. a \<noteq> r \<longrightarrow> heap s' ! a = heap sc ! a) \<and>
         ln_parent (heap s' ! r) = p \<and> ln_children (heap s' ! r) = kids \<and>
         ln_sourceData (heap s' ! r) = IdNode i t cs \<and>
         (kids \<noteq> [] \<longrightarrow> ln_y (heap s' ! r) = childrenMean (heap s') r)"
proof -
  let ?n0 = "length (heap s)"
  have ys: "map (\<lambda>c. ln_y (modify ?n0 f h ! c)) kids = map (\<lambda>c. ln_y (h ! c)) kids" for f h
  proof (intro map_cong refl)
    fix c assume "c \<in> set kids"
    with assms(5) have "c \<noteq> ?n0" by auto
    then show "ln_y (modify ?n0 f h ! c) = ln_y (h ! c)" by simp
  qed
  show ?thesis
    using assms(1,3,4,6) unfolding buildHierarchy.simps assms(2) Let_def
    by (auto simp: assms(2) foldl_add_sum_list childrenMean_def ys split: if_splits)
qed

lemma rroot_in_concat_refs: "t \<in> set ts \<Longrightarrow> rroot t \<in> set (concat (map refs ts))"
  by (auto intro!: bexI[of _ t])

lemma buildHierarchy_post:
  "buildHierarchy g e nd d p s = (r, s') \<Longrightarrow> buildPost nd p s r s'"
proof (induction nd arbitrary: d p s r s')
  case (IdNode i t cs)
  let ?n0 = "length (heap s)"
  show ?case
  proof (cases "i \<in> e")
    case False
    from buildHierarchy_collapsed[OF False IdNode.prems]
    have r: "r = ?n0" and fr: "nodes s' = nodes s" "links s' = links s"
      and len: "length (heap s') = Suc ?n0"
      and old: "\<forall>a < ?n0. heap s' ! a = heap s ! a"
      and par: "ln_parent (heap s' ! r) = p" and kids: "ln_children (heap s' ! r) = []"
      and src: "ln_sourceData (heap s' ! r) = IdNode i t cs"
      by blast+
    have "built (heap s') p ?n0 [RT r []]"
      using r len par kids by (auto simp: built_def)
    moreover have "extends s s'" using fr len old by (simp add: extends_def)
    ultimately show ?thesis unfolding buildPost_def using r len src
      by (intro conjI exI[of _ "RT r []"]) simp_all
  next
    case True
    let ?cell = "\<lparr>ln_id = i, ln_name = t, ln_children = [], ln_x = 0, ln_y = 0, ln_depth = d,
                   ln_width = max MIN_NODE_WIDTH (g t ''500 16px sans-serif'' + NODE_HORIZONTAL_PADDING),
                   ln_height = NODE_HEIGHT, ln_sourceData = IdNode i t cs,
                   ln_parent = p\<rparr>"
    let ?s1 = "s\<lparr>heap := heap s @ [?cell]\<rparr>"
    obtain kids sc where bc: "buildChildren g e cs (d + 1) (Some ?n0) ?s1 = (kids, sc)"
      by (cases "buildChildren g e cs (d + 1) (Some ?n0) ?s1")
    have "buildChildrenPost cs (Some ?n0) ?s1 kids sc"
      by (rule buildChildren_post[OF _ bc]) (rule IdNode.IH)
    then obtain ts where ext: "extends ?s1 sc"
      and sz: "length (heap sc) \<le> length (heap ?s1) + length (concat (map allNodes cs))"
      and ts: "map rroot ts = kids" and b: "built (heap sc) (Some ?n0) (length (heap ?s1)) ts"
      unfolding buildChildrenPost_def by blast
    from b have tsr: "set (concat (map refs ts)) = {Suc ?n0..<length (heap sc)}"
      and tsd: "distinct (concat (map refs ts))"
      and tss: "\<And>t'. t' \<in> set ts \<Longrightarrow> shaped (heap sc) (Some ?n0) t' \<and> centered (heap sc) t'"
      by (simp_all add: built_def)
    from ext have lsc: "?n0 < length (heap sc)" by (simp add: extends_def)
    from ext have "heap sc ! ?n0 = heap ?s1 ! ?n0" by (simp add: extends_def)
    then have cell: "heap sc ! ?n0 = ?cell" by simp
    have sub: "set kids \<subseteq> set (concat (map refs ts))"
    proof
      fix c assume "c \<in> set kids"
      with ts obtain t' where "t' \<in> set ts" "c = rroot t'" by auto
      then show "c \<in> set (concat (map refs ts))" by (simp only: rroot_in_concat_refs)
    qed
    with tsr have notin: "?n0 \<notin> set kids" by auto
    from buildHierarchy_expanded[OF True bc cell lsc notin IdNode.prems]
    have r: "r = ?n0" and fr: "nodes s' = nodes sc" "links s' = links sc"
      and len: "length (heap s') = length (heap sc)"
      and other: "\<And>a. a \<noteq> r \<Longrightarrow> heap s' ! a = heap sc ! a"
      and par: "ln_parent (heap s' ! r) = p" and ch: "ln_children (heap s' ! r) = kids"
      and mean: "kids \<noteq> [] \<Longrightarrow> ln_y (heap s' ! r) = childrenMean (heap s') r"
      and src: "ln_sourceData (heap s' ! r) = IdNode i t cs"
      by blast+
    have same: "heap s' ! a = heap sc ! a" if "a \<in> set (refs t')" "t' \<in> set ts" for a t'
    proof -
      from that have "a \<in> set (concat (map refs ts))" by auto
      with tsr r have "a \<noteq> r" by auto
      then show ?thesis by (rule other)
    qed
    have sh: "shaped (heap s') (Some ?n0) t'" and ce: "centered (heap s') t'" if t': "t' \<in> set ts" for t'
    proof -
      from tss[OF t'] have a: "shaped (heap sc) (Some ?n0) t'" and c: "centered (heap sc) t'" by simp_all
      show "shaped (heap s') (Some ?n0) t'"
        by (rule shaped_frame[OF a]) (simp_all add: len same[OF _ t'])
      show "centered (heap s') t'"
        by (rule centered_frame[OF c a]) (simp add: same[OF _ t'])
    qed
    have "shaped (heap s') p (RT r ts)"
      using r lsc len par ch ts sh by simp
    moreover have "centered (heap s') (RT r ts)"
      using ch mean ce by simp
    moreover have "distinct (refs (RT r ts))"
      using tsd tsr r by simp
    moreover have "set (refs (RT r ts)) = {?n0..<length (heap s')}"
      using tsr r len lsc by auto
    ultimately have bt: "built (heap s') p ?n0 [RT r ts]"
      by (simp add: built_def)
    have "heap s' ! a = heap s ! a" if "a < ?n0" for a
    proof -
      from that r have "heap s' ! a = heap sc ! a" by (intro other) simp
      also from ext that have "\<dots> = heap ?s1 ! a" by (simp add: extends_def)
      also from that have "\<dots> = heap s ! a" by (simp add: nth_append)
      finally show ?thesis .
    qed
    moreover from ext fr have "nodes s' = nodes s" "links s' = links s"
      by (simp_all add: extends_def)
    ultimately have "extends s s'" using len lsc by (simp add: extends_def)
    moreover have "length (heap s') \<le> ?n0 + length (allNodes (IdNode i t cs))"
      using sz len by simp
    ultimately show ?thesis unfolding buildPost_def using r bt src
      by (intro conjI exI[of _ "RT r ts"]) simp_all
  qed
qed

subsection \<open>What \<open>positionNodes\<close> does on a tree\<close>

lemma positioned_parent:
  assumes "positioned yo s rs s'"
  shows "ln_parent (heap s' ! a) = ln_parent (heap s ! a)"
  using assms unfolding positioned_def by (cases "a \<in> set rs") auto

lemma positioned_children:
  assumes "positioned yo s rs s'"
  shows "ln_children (heap s' ! a) = ln_children (heap s ! a)"
  using assms unfolding positioned_def by (cases "a \<in> set rs") auto

lemma positioned_sourceData:
  assumes "positioned yo s rs s'"
  shows "ln_sourceData (heap s' ! a) = ln_sourceData (heap s ! a)"
  using assms unfolding positioned_def by (cases "a \<in> set rs") auto

lemma positioned_name:
  assumes "positioned yo s rs s'"
  shows "ln_name (heap s' ! a) = ln_name (heap s ! a)"
  using assms unfolding positioned_def by (cases "a \<in> set rs") auto

lemma positioned_y:
  assumes "positioned yo s rs s'" and "a \<in> set rs"
  shows "ln_y (heap s' ! a) = ln_y (heap s ! a) + yo"
  using assms unfolding positioned_def by auto

lemma positioned_append:
  assumes p1: "positioned yo s rs1 s1" and p2: "positioned yo s1 rs2 s2"
    and disj: "set rs1 \<inter> set rs2 = {}"
  shows "positioned yo s (rs1 @ rs2) s2"
proof -
  from p1 obtain ls1 where l1: "links s1 = links s @ ls1"
      "map link_target ls1 = filter (\<lambda>a. ln_parent (heap s ! a) \<noteq> None) rs1"
      "\<forall>l \<in> set ls1. ln_parent (heap s ! link_target l) = Some (link_source l)"
    unfolding positioned_def by blast
  from p2 obtain ls2 where l2: "links s2 = links s1 @ ls2"
      "map link_target ls2 = filter (\<lambda>a. ln_parent (heap s1 ! a) \<noteq> None) rs2"
      "\<forall>l \<in> set ls2. ln_parent (heap s1 ! link_target l) = Some (link_source l)"
    unfolding positioned_def by blast
  have par: "ln_parent (heap s1 ! a) = ln_parent (heap s ! a)" for a
    by (rule positioned_parent[OF p1])
  have "links s2 = links s @ (ls1 @ ls2)" using l1(1) l2(1) by simp
  moreover have "map link_target (ls1 @ ls2) =
      filter (\<lambda>a. ln_parent (heap s ! a) \<noteq> None) (rs1 @ rs2)"
    using l1(2) l2(2) by (simp add: par)
  moreover have "\<forall>l \<in> set (ls1 @ ls2). ln_parent (heap s ! link_target l) = Some (link_source l)"
    using l1(3) l2(3) by (auto simp: par)
  ultimately have lk: "\<exists>ls. links s2 = links s @ ls \<and>
         map link_target ls = filter (\<lambda>a. ln_parent (heap s ! a) \<noteq> None) (rs1 @ rs2) \<and>
         (\<forall>l \<in> set ls. ln_parent (heap s ! link_target l) = Some (link_source l))"
    by blast
  have nd: "nodes s2 = nodes s @ (rs1 @ rs2)"
    using p1 p2 by (simp add: positioned_def)
  have len: "length (heap s2) = length (heap s)"
    using p1 p2 by (simp add: positioned_def)
  have out: "heap s2 ! a = heap s ! a" if "a \<notin> set (rs1 @ rs2)" for a
    using p1 p2 that by (simp add: positioned_def)
  have inn: "ln_parent (heap s2 ! a) = ln_parent (heap s ! a) \<and>
         ln_children (heap s2 ! a) = ln_children (heap s ! a) \<and>
         ln_sourceData (heap s2 ! a) = ln_sourceData (heap s ! a) \<and>
         ln_name (heap s2 ! a) = ln_name (heap s ! a) \<and>
         ln_y (heap s2 ! a) = ln_y (heap s ! a) + yo" if "a \<in> set (rs1 @ rs2)" for a
  proof (cases "a \<in> set rs1")
    case True
    with disj have "a \<notin> set rs2" by auto
    with p2 have "heap s2 ! a = heap s1 ! a" by (simp add: positioned_def)
    with p1 True show ?thesis by (simp add: positioned_def)
  next
    case False
    with that have a2: "a \<in> set rs2" by simp
    from p1 False have "heap s1 ! a = heap s ! a" by (simp add: positioned_def)
    with p2 a2 show ?thesis by (simp add: positioned_def)
  qed
  show ?thesis unfolding positioned_def using nd len out inn lk by blast
qed

lemma positionNodes_step:
  assumes "r < length (heap s)"
  shows "\<exists>s4. positioned yo s [r] s4 \<and>
           positionNodes (Suc k) cw r yo px pw s =
             positionChildren k cw (ln_children (heap s ! r)) yo r s4"
proof (cases "ln_parent (heap s ! r)")
  case None
  let ?s4 = "s\<lparr>heap := modify r (\<lambda>n. n\<lparr>ln_y := ln_y n + yo\<rparr>)
                  (modify r (\<lambda>n. n\<lparr>ln_x := (- cw / 2) + (ln_width n / 2) + 50\<rparr>) (heap s)),
               nodes := nodes s @ [r]\<rparr>"
  have "positioned yo s [r] ?s4" using assms None by (simp add: positioned_def)
  moreover have "positionNodes (Suc k) cw r yo px pw s =
             positionChildren k cw (ln_children (heap s ! r)) yo r ?s4"
    using assms None by (simp add: Let_def)
  ultimately show ?thesis by blast
next
  case (Some p)
  obtain s4 where s4: "positionNodes (Suc k) cw r yo px pw s =
             positionChildren k cw (ln_children (heap s ! r)) yo r s4"
     and hp: "heap s4 = modify r (\<lambda>n. n\<lparr>ln_y := ln_y n + yo\<rparr>)
                  (modify r (\<lambda>n. n\<lparr>ln_x := px + (pw / 2 + HORIZONTAL_SPACING + ln_width n / 2)\<rparr>) (heap s))"
     and nd: "nodes s4 = nodes s @ [r]"
     and lk: "\<exists>l. links s4 = links s @ [l] \<and> link_target l = r \<and> link_source l = p"
    using assms Some by (simp add: Let_def)
  from lk obtain l where l: "links s4 = links s @ [l]" "link_target l = r" "link_source l = p"
    by blast
  have "\<exists>ls. links s4 = links s @ ls \<and>
         map link_target ls = filter (\<lambda>a. ln_parent (heap s ! a) \<noteq> None) [r] \<and>
         (\<forall>l \<in> set ls. ln_parent (heap s ! link_target l) = Some (link_source l))"
    using l Some by (intro exI[of _ "[l]"]) simp
  then have "positioned yo s [r] s4" using assms hp nd unfolding positioned_def by simp
  with s4 show ?thesis by blast
qed

lemma shaped_positioned:
  assumes "shaped (heap s) p t" and "positioned yo s rs s'"
  shows "shaped (heap s') p t"
proof (rule shaped_frame[OF assms(1)])
  show "length (heap s) \<le> length (heap s')" using assms(2) by (simp add: positioned_def)
  show "ln_parent (heap s' ! a) = ln_parent (heap s ! a) \<and>
        ln_children (heap s' ! a) = ln_children (heap s ! a)" for a
    using positioned_parent[OF assms(2)] positioned_children[OF assms(2)] by simp
qed

lemma positionChildren_post:
  assumes elem: "\<And>t s px pw. t \<in> set ts \<Longrightarrow> shaped (heap s) p t \<Longrightarrow>
            \<exists>s'. positionNodes k cw (rroot t) yo px pw s = Some s' \<and> positioned yo s (refs t) s'"
    and sh: "\<forall>t \<in> set ts. shaped (heap s) p t"
    and dist: "distinct (concat (map refs ts))"
  shows "\<exists>s'. positionChildren k cw (map rroot ts) yo r s = Some s' \<and>
               positioned yo s (concat (map refs ts)) s'"
  using assms
proof (induction ts arbitrary: s)
  case Nil
  have "positioned yo s [] s" by (simp add: positioned_def)
  then show ?case by simp
next
  case (Cons t ts)
  from Cons.prems(2) have "shaped (heap s) p t" by simp
  from Cons.prems(1)[OF _ this, of "ln_x (heap s ! r)" "ln_width (heap s ! r)"]
  obtain s1 where s1: "positionNodes k cw (rroot t) yo (ln_x (heap s ! r)) (ln_width (heap s ! r)) s = Some s1"
    and p1: "positioned yo s (refs t) s1" by auto
  have "\<exists>s'. positionChildren k cw (map rroot ts) yo r s1 = Some s' \<and>
               positioned yo s1 (concat (map refs ts)) s'"
  proof (rule Cons.IH)
    show "\<exists>s'. positionNodes k cw (rroot t') yo px pw s = Some s' \<and> positioned yo s (refs t') s'"
      if "t' \<in> set ts" "shaped (heap s) p t'" for t' s px pw
      using Cons.prems(1)[of t' s px pw] that by simp
    show "\<forall>t \<in> set ts. shaped (heap s1) p t"
      using Cons.prems(2) shaped_positioned[OF _ p1] by simp
    show "distinct (concat (map refs ts))" using Cons.prems(3) by simp
  qed
  then obtain s2 where s2: "positionChildren k cw (map rroot ts) yo r s1 = Some s2"
    and p2: "positioned yo s1 (concat (map refs ts)) s2" by blast
  have "set (refs t) \<inter> set (concat (map refs ts)) = {}"
    using Cons.prems(3) by auto
  from positioned_append[OF p1 p2 this] s1 s2 show ?case by simp
qed

lemma length_refs_le_concat:
  "t \<in> set ts \<Longrightarrow> length (refs t) \<le> length (concat (map refs ts))"
  by (induction ts) auto

lemma positionNodes_post:
  assumes "shaped (heap s) p t" and "distinct (refs t)" and "length (refs t) \<le> k"
  shows "\<exists>s'. positionNodes k cw (rroot t) yo px pw s = Some s' \<and> positioned yo s (refs t) s'"
  using assms
proof (induction t arbitrary: s p k px pw)
  case (RT r ts)
  from RT.prems(3) obtain k' where k: "k = Suc k'" by (cases k) auto
  from RT.prems(1) have r: "r < length (heap s)" and ch: "ln_children (heap s ! r) = map rroot ts"
    and sub: "\<forall>t \<in> set ts. shaped (heap s) (Some r) t" by simp_all
  from positionNodes_step[OF r, of yo k' cw px pw]
  obtain s4 where p4: "positioned yo s [r] s4"
    and step: "positionNodes (Suc k') cw r yo px pw s =
                 positionChildren k' cw (map rroot ts) yo r s4"
    unfolding ch by blast
  have "\<exists>s'. positionChildren k' cw (map rroot ts) yo r s4 = Some s' \<and>
               positioned yo s4 (concat (map refs ts)) s'"
  proof (rule positionChildren_post)
    show "\<exists>s'. positionNodes k' cw (rroot t') yo px pw s = Some s' \<and> positioned yo s (refs t') s'"
      if t': "t' \<in> set ts" and "shaped (heap s) (Some r) t'" for t' s px pw
    proof (rule RT.IH[OF t' that(2)])
      show "distinct (refs t')" using RT.prems(2) t' by (auto simp: distinct_concat_iff)
      show "length (refs t') \<le> k'"
        using RT.prems(3) k length_refs_le_concat[OF t'] by simp
    qed
    show "\<forall>t \<in> set ts. shaped (heap s4) (Some r) t"
      using sub shaped_positioned[OF _ p4] by simp
    show "distinct (concat (map refs ts))" using RT.prems(2) by simp
  qed
  then obtain s' where s': "positionChildren k' cw (map rroot ts) yo r s4 = Some s'"
    and p': "positioned yo s4 (concat (map refs ts)) s'" by blast
  have "set [r] \<inter> set (concat (map refs ts)) = {}" using RT.prems(2) by simp
  from positioned_append[OF p4 p' this] have "positioned yo s (refs (RT r ts)) s'" by simp
  with step s' k show ?case by simp
qed

subsection \<open>The whole layout pass\<close>





lemma shaped_parent_in_refs:
  "shaped h p t \<Longrightarrow> a \<in> set (refs t) \<Longrightarrow>
   (a = rroot t \<and> ln_parent (h ! a) = p) \<or> (\<exists>b \<in> set (refs t). ln_parent (h ! a) = Some b)"
proof (induction t arbitrary: p)
  case (RT r ts)
  show ?case
  proof (cases "a = r")
    case True
    with RT.prems(1) show ?thesis by simp
  next
    case False
    with RT.prems(2) obtain t' where t': "t' \<in> set ts" "a \<in> set (refs t')" by auto
    from RT.prems(1) t'(1) have "shaped h (Some r) t'" by simp
    from RT.IH[OF t'(1) this t'(2)]
    consider "ln_parent (h ! a) = Some r" | b where "b \<in> set (refs t')" "ln_parent (h ! a) = Some b"
      by blast
    then show ?thesis
    proof cases
      case 1
      then show ?thesis by simp
    next
      case 2
      with t'(1) have "b \<in> set (refs (RT r ts))" by auto
      with 2(2) show ?thesis by blast
    qed
  qed
qed

text \<open>The state after a layout pass, in terms of the tree of references that was built.\<close>

lemma calculateLayout_post:
  assumes "length (allNodes rootNode) \<le> fuel"
  shows "\<exists>s1 t s'. 
           buildHierarchy g e rootNode 0 None \<lparr>heap = [], nodes = [], links = [], yCounter = 0\<rparr> = (0, s1) \<and>
           nodes s1 = [] \<and> links s1 = [] \<and> ln_sourceData (heap s1 ! 0) = rootNode \<and>
           rroot t = 0 \<and> shaped (heap s1) None t \<and> centered (heap s1) t \<and> distinct (refs t) \<and>
           calculateLayout fuel g e rootNode cw = Some s' \<and>
           positioned (- ln_y (heap s1 ! 0)) s1 (refs t) s'"
proof -
  let ?s0 = "\<lparr>heap = [], nodes = [], links = [], yCounter = 0\<rparr>"
  obtain r s1 where bh: "buildHierarchy g e rootNode 0 None ?s0 = (r, s1)"
    by (cases "buildHierarchy g e rootNode 0 None ?s0")
  from buildHierarchy_post[OF bh] obtain t where r: "r = 0" and ext: "extends ?s0 s1"
    and sz: "length (heap s1) \<le> length (allNodes rootNode)"
    and src: "ln_sourceData (heap s1 ! r) = rootNode"
    and t: "rroot t = r" "built (heap s1) None 0 [t]"
    unfolding buildPost_def by auto
  from t(2) have sh: "shaped (heap s1) None t" and ce: "centered (heap s1) t"
    and di: "distinct (refs t)" and se: "set (refs t) = {0..<length (heap s1)}"
    by (simp_all add: built_def)
  from di se have "length (refs t) = length (heap s1)"
    using distinct_card[OF di] by simp
  with sz assms have "length (refs t) \<le> fuel" by simp
  from positionNodes_post[OF sh di this, of cw "- ln_y (heap s1 ! 0)" 0 0]
  obtain s' where s': "positionNodes fuel cw (rroot t) (- ln_y (heap s1 ! 0)) 0 0 s1 = Some s'"
    and p: "positioned (- ln_y (heap s1 ! 0)) s1 (refs t) s'" by blast
  have "calculateLayout fuel g e rootNode cw = Some s'"
    using bh s' r t(1) by (simp add: calculateLayout_def)
  moreover from ext have "nodes s1 = []" "links s1 = []" by (simp_all add: extends_def)
  ultimately show ?thesis using bh r src t(1) sh ce di p by blast
qed

subsection \<open>The end-to-end scenario\<close>

lemma scenario_ids: "addIdsRoot scenarioTree =
   IdNode ''root-A'' ''A''
     [IdNode ''root-A-0-B'' ''B'' [],
      IdNode ''root-A-1-C'' ''C'' [IdNode ''root-A-1-C-0-D'' ''D'' []]]"
  by (simp add: addIdsRoot_def scenarioTree_def Let_def sanitize_def isAlnum_def toString.simps
        digitChar_def enumerate_eq_zip upt_rec)

lemma scenario_expanded: "setInitialExpandedState [scenarioTree] = {''root-A''}"
  by (simp add: setInitialExpandedState_def scenario_ids)

lemma scenario_build:
  "fst (buildHierarchy getTextWidth {''root-A''} (addIdsRoot scenarioTree) 0 None
      \<lparr>heap = [], nodes = [], links = [], yCounter = 0\<rparr>) = 0 \<and>
   (let s1 = snd (buildHierarchy getTextWidth {''root-A''} (addIdsRoot scenarioTree) 0 None
      \<lparr>heap = [], nodes = [], links = [], yCounter = 0\<rparr>)
    in length (heap s1) = 3 \<and> nodes s1 = [] \<and> links s1 = [] \<and>
       ln_name (heap s1 ! 0) = ''A'' \<and> ln_name (heap s1 ! 1) = ''B'' \<and>
       ln_name (heap s1 ! 2) = ''C'' \<and>
       ln_children (heap s1 ! 0) = [1, 2] \<and> ln_children (heap s1 ! 1) = [] \<and>
       ln_children (heap s1 ! 2) = [] \<and>
       ln_parent (heap s1 ! 0) = None \<and> ln_parent (heap s1 ! 1) = Some 0 \<and>
       ln_parent (heap s1 ! 2) = Some 0)"
  unfolding scenario_ids by (simp add: Let_def modify_def nth_append)

lemma scenario_full_layout:
  "calculateLayout 4 fallbackTextWidth {''root-A'', ''root-A-1-C''} (addIdsRoot scenarioTree) 1000
     = Some scenarioLayout"
  by code_simp

lemma scenario_initial_layout:
  "calculateLayout 4 fallbackTextWidth (setInitialExpandedState [scenarioTree])
     (addIdsRoot scenarioTree) 1000 = Some scenarioInitialLayout"
  by code_simp

lemma scenario_size: "length (allNodes (addIdsRoot scenarioTree)) = 4"
  by (simp add: scenario_ids)

subsection \<open>Centering, root anchoring and tree shape\<close>



text \<open>
  \<^bold>\<open>C2\<close>. Root anchoring: for every identified tree, expansion set, text measurement
  and container width, the first node of the returned layout is the one built from the root
  of the tree, it has no parent, and its final \<open>y\<close> is exactly 0.
\<close>

theorem layout_root_at_zero:
  assumes "length (allNodes rootNode) \<le> fuel"
  shows "\<exists>s. calculateLayout fuel getTextWidth expandedNodes rootNode containerWidth = Some s \<and>
           nodes s \<noteq> [] \<and>
           ln_sourceData (heap s ! hd (nodes s)) = rootNode \<and>
           ln_parent (heap s ! hd (nodes s)) = None \<and>
           ln_y (heap s ! hd (nodes s)) = 0"
proof -
  from calculateLayout_post[OF assms, of getTextWidth expandedNodes containerWidth]
  obtain s1 t s where sh: "shaped (heap s1) None t" and rt: "rroot t = 0"
    and n1: "nodes s1 = []" and src: "ln_sourceData (heap s1 ! 0) = rootNode"
    and res: "calculateLayout fuel getTextWidth expandedNodes rootNode containerWidth = Some s"
    and pos: "positioned (- ln_y (heap s1 ! 0)) s1 (refs t) s" by blast
  obtain ts where t: "t = RT 0 ts" using rt by (cases t) simp
  from pos n1 have nodes: "nodes s = 0 # concat (map refs ts)" by (simp add: positioned_def t)
  have "ln_parent (heap s ! 0) = ln_parent (heap s1 ! 0)"
      "ln_sourceData (heap s ! 0) = ln_sourceData (heap s1 ! 0)"
      "ln_y (heap s ! 0) = ln_y (heap s1 ! 0) + (- ln_y (heap s1 ! 0))"
    using positioned_parent[OF pos] positioned_sourceData[OF pos] positioned_y[OF pos, of 0]
    by (simp_all add: t)
  moreover from sh have "ln_parent (heap s1 ! 0) = None" by (simp add: t)
  ultimately show ?thesis using res nodes src by simp
qed

theorem layout_root_at_zero_witness:
  "length (allNodes (addIdsRoot scenarioTree)) \<le> 4 \<and>
   calculateLayout 4 fallbackTextWidth {''root-A'', ''root-A-1-C''} (addIdsRoot scenarioTree) 1000
     = Some scenarioLayout \<and>
   hd (nodes scenarioLayout) = 0 \<and>
   ln_name (heap scenarioLayout ! 0) = ''A'' \<and>
   ln_y (heap scenarioLayout ! 0) = 0"
proof -
  have h: "length (allNodes (addIdsRoot scenarioTree)) \<le> 4" by (simp add: scenario_size)
  from layout_root_at_zero[OF h, of fallbackTextWidth "{''root-A'', ''root-A-1-C''}" 1000]
  have "ln_y (heap scenarioLayout ! hd (nodes scenarioLayout)) = 0"
    unfolding scenario_full_layout by simp
  moreover have "hd (nodes scenarioLayout) = 0" "ln_name (heap scenarioLayout ! 0) = ''A''"
    by (simp_all add: scenarioLayout_def)
  ultimately show ?thesis using h scenario_full_layout by simp
qed

text \<open>
  \<^bold>\<open>C10\<close>. The returned layout is a tree over the visible nodes: there is one link less
  than there are nodes, and both ends of every link are among the returned nodes. Moreover
  no node is returned twice and every link leads from the parent of its target.
\<close>

theorem layout_is_tree:
  assumes "length (allNodes rootNode) \<le> fuel"
  shows "\<exists>s. calculateLayout fuel getTextWidth expandedNodes rootNode containerWidth = Some s \<and>
           Suc (length (links s)) = length (nodes s) \<and> distinct (nodes s) \<and>
           (\<forall>l \<in> set (links s).
              link_source l \<in> set (nodes s) \<and> link_target l \<in> set (nodes s) \<and>
              ln_parent (heap s ! link_target l) = Some (link_source l))"
proof -
  from calculateLayout_post[OF assms, of getTextWidth expandedNodes containerWidth]
  obtain s1 t s where sh: "shaped (heap s1) None t" and rt: "rroot t = 0"
    and di: "distinct (refs t)"
    and n1: "nodes s1 = []" and l1: "links s1 = []"
    and res: "calculateLayout fuel getTextWidth expandedNodes rootNode containerWidth = Some s"
    and pos: "positioned (- ln_y (heap s1 ! 0)) s1 (refs t) s" by blast
  obtain ts where t: "t = RT 0 ts" using rt by (cases t) simp
  from pos n1 have nodes: "nodes s = refs t" by (simp add: positioned_def)
  from pos l1 have tg: "map link_target (links s) =
        filter (\<lambda>a. ln_parent (heap s1 ! a) \<noteq> None) (refs t)"
    and sr: "\<forall>l \<in> set (links s). ln_parent (heap s1 ! link_target l) = Some (link_source l)"
    by (auto simp: positioned_def)
  have root: "ln_parent (heap s1 ! 0) = None" using sh by (simp add: t)
  have inner: "ln_parent (heap s1 ! a) \<noteq> None" if "a \<in> set (concat (map refs ts))" for a
  proof -
    from that have "a \<in> set (refs t)" by (simp add: t)
    moreover have "0 \<notin> set (concat (map refs ts))" using di by (simp add: t)
    with that have "a \<noteq> rroot t" unfolding rt by metis
    ultimately show ?thesis using shaped_parent_in_refs[OF sh, of a] by auto
  qed
  have "filter (\<lambda>a. ln_parent (heap s1 ! a) \<noteq> None) (refs t) = concat (map refs ts)"
    using root inner by (simp add: t filter_id_conv)
  with tg have "length (map link_target (links s)) = length (concat (map refs ts))" by simp
  then have cnt: "Suc (length (links s)) = length (nodes s)" by (simp add: nodes t)
  have ends: "link_source l \<in> set (nodes s) \<and> link_target l \<in> set (nodes s) \<and>
      ln_parent (heap s ! link_target l) = Some (link_source l)"
    if l: "l \<in> set (links s)" for l
  proof -
    from l have "link_target l \<in> set (map link_target (links s))" by simp
    with tg have tin: "link_target l \<in> set (refs t)" by simp
    from sr l have par: "ln_parent (heap s1 ! link_target l) = Some (link_source l)" by simp
    from shaped_parent_in_refs[OF sh tin] par have "link_source l \<in> set (refs t)" by auto
    with tin par show ?thesis by (simp add: nodes positioned_parent[OF pos])
  qed
  from di have "distinct (nodes s)" by (simp add: nodes)
  with res cnt ends show ?thesis by blast
qed

theorem layout_is_tree_witness:
  "length (allNodes (addIdsRoot scenarioTree)) \<le> 4 \<and>
   calculateLayout 4 fallbackTextWidth {''root-A'', ''root-A-1-C''} (addIdsRoot scenarioTree) 1000
     = Some scenarioLayout \<and>
   length (nodes scenarioLayout) = 4 \<and> length (links scenarioLayout) = 3 \<and>
   map (\<lambda>l. (link_source l, link_target l)) (links scenarioLayout) = [(0, 1), (0, 2), (2, 3)]"
proof -
  have h: "length (allNodes (addIdsRoot scenarioTree)) \<le> 4" by (simp add: scenario_size)
  from layout_is_tree[OF h, of fallbackTextWidth "{''root-A'', ''root-A-1-C''}" 1000]
  have "Suc (length (links scenarioLayout)) = length (nodes scenarioLayout)"
    unfolding scenario_full_layout by simp
  moreover have "length (nodes scenarioLayout) = 4"
    "map (\<lambda>l. (link_source l, link_target l)) (links scenarioLayout) = [(0, 1), (0, 2), (2, 3)]"
    by (simp_all add: scenarioLayout_def)
  ultimately show ?thesis using h scenario_full_layout by simp
qed

text \<open>
  \<^bold>\<open>C5\<close> (as amended). The claim expects one visible node and no edge for the scenario
  tree when only the root is expanded. An expanded root shows its children: with the
  expansion set that \<open>setInitialExpandedState\<close> produces, which holds the root's identifier
  only, \<open>calculateLayout\<close> returns exactly the three nodes \<open>A\<close>, \<open>B\<close>, \<open>C\<close> and two
  edges, for every text measurement and container width (and fuel for three calls).
\<close>

theorem scenario_root_expanded:
  assumes "3 \<le> fuel"
  shows "\<exists>s. calculateLayout fuel getTextWidth (setInitialExpandedState [scenarioTree])
                (addIdsRoot scenarioTree) containerWidth = Some s \<and>
             map (\<lambda>a. ln_name (heap s ! a)) (nodes s) = [''A'', ''B'', ''C''] \<and>
             length (links s) = 2"
proof -
  let ?t = "RT 0 [RT 1 [], RT 2 []]"
  define s1 where "s1 = snd (buildHierarchy getTextWidth {''root-A''} (addIdsRoot scenarioTree) 0 None
      \<lparr>heap = [], nodes = [], links = [], yCounter = 0\<rparr>)"
  have "fst (buildHierarchy getTextWidth {''root-A''} (addIdsRoot scenarioTree) 0 None
      \<lparr>heap = [], nodes = [], links = [], yCounter = 0\<rparr>) = 0"
    using scenario_build[of getTextWidth] by (rule conjunct1)
  then have bh: "buildHierarchy getTextWidth {''root-A''} (addIdsRoot scenarioTree) 0 None
           \<lparr>heap = [], nodes = [], links = [], yCounter = 0\<rparr> = (0, s1)"
    unfolding s1_def by (simp only: prod_eq_iff fst_conv snd_conv simp_thms)
  have all: "length (heap s1) = 3 \<and> nodes s1 = [] \<and> links s1 = [] \<and>
       ln_name (heap s1 ! 0) = ''A'' \<and> ln_name (heap s1 ! 1) = ''B'' \<and>
       ln_name (heap s1 ! 2) = ''C'' \<and>
       ln_children (heap s1 ! 0) = [1, 2] \<and> ln_children (heap s1 ! 1) = [] \<and>
       ln_children (heap s1 ! 2) = [] \<and>
       ln_parent (heap s1 ! 0) = None \<and> ln_parent (heap s1 ! 1) = Some 0 \<and>
       ln_parent (heap s1 ! 2) = Some 0"
    using scenario_build[of getTextWidth, THEN conjunct2] unfolding s1_def Let_def .
  have sh: "shaped (heap s1) None ?t" using all by simp
  have "length (refs ?t) \<le> fuel" using assms by simp
  from positionNodes_post[OF sh _ this, of containerWidth "- ln_y (heap s1 ! 0)" 0 0]
  obtain s where s: "positionNodes fuel containerWidth 0 (- ln_y (heap s1 ! 0)) 0 0 s1 = Some s"
    and pos: "positioned (- ln_y (heap s1 ! 0)) s1 (refs ?t) s" by auto
  have res: "calculateLayout fuel getTextWidth (setInitialExpandedState [scenarioTree])
                (addIdsRoot scenarioTree) containerWidth = Some s"
    using bh s by (simp add: calculateLayout_def scenario_expanded)
  from pos all have nodes: "nodes s = [0, 1, 2]" by (simp add: positioned_def)
  have names: "map (\<lambda>a. ln_name (heap s ! a)) (nodes s) = [''A'', ''B'', ''C'']"
    unfolding nodes using all by (simp add: positioned_name[OF pos])
  from pos all have "map link_target (links s) =
      filter (\<lambda>a. ln_parent (heap s1 ! a) \<noteq> None) (refs ?t)" by (auto simp: positioned_def)
  also have "\<dots> = [1, 2]" using all by simp
  finally have "length (map link_target (links s)) = 2" by simp
  then have lk: "length (links s) = 2" by simp
  show ?thesis by (rule exI[of _ s]) (simp only: res names lk simp_thms)
qed

theorem scenario_root_expanded_witness:
  "(3::nat) \<le> 4 \<and>
   calculateLayout 4 fallbackTextWidth (setInitialExpandedState [scenarioTree])
     (addIdsRoot scenarioTree) 1000 = Some scenarioInitialLayout \<and>
   map (\<lambda>a. ln_name (heap scenarioInitialLayout ! a)) (nodes scenarioInitialLayout)
     = [''A'', ''B'', ''C''] \<and>
   length (nodes scenarioInitialLayout) = 3 \<and> length (links scenarioInitialLayout) = 2"
proof -
  have h: "(3::nat) \<le> 4" by simp
  from scenario_root_expanded[OF h, of fallbackTextWidth 1000]
  have "map (\<lambda>a. ln_name (heap scenarioInitialLayout ! a)) (nodes scenarioInitialLayout)
          = [''A'', ''B'', ''C''] \<and> length (links scenarioInitialLayout) = 2"
    unfolding scenario_initial_layout by simp
  moreover have "length (nodes scenarioInitialLayout) = 3" by (simp add: scenarioInitialLayout_def)
  ultimately show ?thesis using scenario_initial_layout by simp
qed

text \<open>
  The claim as stated fails: the layout of that input has three nodes and two links, not one
  node and no link.
\<close>

theorem scenario_one_node_counterexample:
  "calculateLayout 4 fallbackTextWidth (setInitialExpandedState [scenarioTree])
     (addIdsRoot scenarioTree) 1000 = Some scenarioInitialLayout \<and>
   length (nodes scenarioInitialLayout) = 3 \<and> length (nodes scenarioInitialLayout) \<noteq> 1 \<and>
   length (links scenarioInitialLayout) = 2 \<and> length (links scenarioInitialLayout) \<noteq> 0"
  using scenario_initial_layout by (simp add: scenarioInitialLayout_def)

end
